theory Spec2Isabelle
  imports Complex_Main "HOL-Library.Multiset"
begin

section \<open>Card codec (card\_rl/env.py, lines 13--30)\<close>

text \<open>
  A card is a Python integer. Python's \<open>//\<close> and \<open>%\<close> are floor division and its
  remainder, which is what \<open>div\<close> and \<open>mod\<close> are on \<open>int\<close>.
\<close>

definition suit_of :: "int \<Rightarrow> int" where
  "suit_of card_id = card_id div 13"

definition rank_of :: "int \<Rightarrow> int" where
  "rank_of card_id = card_id mod 13"

definition encode_card :: "int \<Rightarrow> int \<Rightarrow> int" where
  "encode_card rank suit = suit * 13 + rank"

definition decode_card :: "int \<Rightarrow> int \<times> int" where
  "decode_card card_id = (rank_of card_id, suit_of card_id)"

section \<open>Errors\<close>

text \<open>
  Every exception the code can raise is a value. \<open>EpisodeFinished\<close> is the
  \<open>RuntimeError\<close> raised by \<open>step\<close> at line 81 and \<open>InvalidAction\<close> the
  \<open>ValueError\<close> raised by \<open>step\<close> at line 84. The others are the exceptions of
  the Python runtime: \<open>ValueError\<close> from \<open>list.remove\<close> and from \<open>max\<close> of an
  empty list, \<open>IndexError\<close> from indexing and from \<open>choice\<close> of an empty sequence,
  \<open>KeyError\<close> from a dictionary lookup, \<open>AssertionError\<close> from \<open>assert\<close> and
  \<open>AttributeError\<close> from reading a field of \<open>None\<close>.
\<close>

datatype error =
  EpisodeFinished | InvalidAction | ValueError | IndexError | KeyError
  | AssertionError | AttributeError

section \<open>The random generator\<close>

text \<open>
  \<open>random.Random\<close> belongs to Python's standard library, not to this repository. It
  is a parameter of the model: a generator is a state type \<open>'g\<close> with a seeding
  function and a function that draws a number below a bound and returns the next state.
  Any deterministic generator is an instance. \<open>randbelow\<close> reduces the drawn number
  modulo the bound, which changes nothing for a generator that already answers below the
  bound, as the library's does.
\<close>

record 'g generator =
  gen_seed :: "int \<Rightarrow> 'g"
  gen_below :: "'g \<Rightarrow> nat \<Rightarrow> nat \<times> 'g"

definition randbelow :: "'g generator \<Rightarrow> 'g \<Rightarrow> nat \<Rightarrow> nat \<times> 'g" where
  "randbelow G g n = (case gen_below G g n of (r, g') \<Rightarrow> (r mod n, g'))"

text \<open>
  \<open>Random.shuffle\<close>: for \<open>i\<close> from \<open>len(x) - 1\<close> down to \<open>1\<close>, draw
  \<open>j\<close> below \<open>i + 1\<close> and swap \<open>x[i]\<close> with \<open>x[j]\<close>.
\<close>

primrec shuffle_from :: "'g generator \<Rightarrow> nat \<Rightarrow> 'a list \<Rightarrow> 'g \<Rightarrow> 'a list \<times> 'g" where
  "shuffle_from G 0 x g = (x, g)"
| "shuffle_from G (Suc k) x g =
     (case randbelow G g (Suc k + 1) of
        (j, g') \<Rightarrow> shuffle_from G k (x[Suc k := x ! j, j := x ! Suc k]) g')"

definition shuffle :: "'g generator \<Rightarrow> 'a list \<Rightarrow> 'g \<Rightarrow> 'a list \<times> 'g" where
  "shuffle G x g = shuffle_from G (length x - 1) x g"

text \<open>
  \<open>Random.choice\<close>: \<open>IndexError\<close> on an empty sequence (no number is drawn),
  otherwise the element at a drawn index.
\<close>

definition choice :: "'g generator \<Rightarrow> 'g \<Rightarrow> 'a list \<Rightarrow> (error + 'a) \<times> 'g" where
  "choice G g seq =
     (if seq = [] then (Inl IndexError, g)
      else case randbelow G g (length seq) of (i, g') \<Rightarrow> (Inr (seq ! i), g'))"

section \<open>State (card\_rl/env.py, lines 33--57)\<close>

record trick_state =
  leader :: nat
  plays :: "(nat \<times> int) list"

text \<open>
  The fields of \<open>CardGameEnv\<close>. The field \<open>done\<close> of the source is \<open>done_flag\<close>
  here, \<open>_dealt\<close> is \<open>dealt\<close> and \<open>_rounds_played\<close> is \<open>rounds_played\<close>.
  The two dictionaries are maps from team to count.
\<close>

record 'g env =
  rng :: 'g
  hands :: "int list list"
  tricks_won :: "nat \<rightharpoonup> int"
  tens_won :: "nat \<rightharpoonup> int"
  current_trick :: "trick_state option"
  current_player :: nat
  done_flag :: bool
  dealt :: bool
  rounds_played :: nat

text \<open>
  The dictionary \<open>_obs\<close> returns, as a record. \<open>trick_leader\<close> is \<open>None\<close> when
  there is no current trick.
\<close>

record observation =
  obs_hand :: "int list"
  obs_current_trick :: "(nat \<times> int) list"
  obs_trick_leader :: "nat option"
  obs_tricks_won :: "nat \<rightharpoonup> int"
  obs_tens_won :: "nat \<rightharpoonup> int"
  obs_remaining_tricks :: nat
  obs_current_player :: nat

text \<open>
  \<open>__init__\<close>: \<open>random.Random(seed)\<close> is seeded with \<open>seed\<close> when one is
  given; otherwise its state comes from the operating system, here the argument \<open>g0\<close>.
\<close>

definition init :: "'g generator \<Rightarrow> int option \<Rightarrow> 'g \<Rightarrow> 'g env" where
  "init G seed g0 =
     \<lparr> rng = (case seed of None \<Rightarrow> g0 | Some s \<Rightarrow> gen_seed G s),
       hands = [[], [], [], []],
       tricks_won = [0 \<mapsto> 0, 1 \<mapsto> 0],
       tens_won = [0 \<mapsto> 0, 1 \<mapsto> 0],
       current_trick = None,
       current_player = 0,
       done_flag = False,
       dealt = False,
       rounds_played = 0 \<rparr>"

text \<open>\<open>_obs\<close>: reading \<open>self.hands[0]\<close> raises \<open>IndexError\<close> when there is no hand.\<close>

definition obs :: "'g env \<Rightarrow> error + observation" where
  "obs e =
     (if hands e = [] then Inl IndexError
      else Inr \<lparr> obs_hand = sort (hands e ! 0),
                 obs_current_trick = (case current_trick e of None \<Rightarrow> [] | Some t \<Rightarrow> plays t),
                 obs_trick_leader = (case current_trick e of None \<Rightarrow> None | Some t \<Rightarrow> Some (leader t)),
                 obs_tricks_won = tricks_won e,
                 obs_tens_won = tens_won e,
                 obs_remaining_tricks = length (hands e ! 0),
                 obs_current_player = current_player e \<rparr>)"

section \<open>reset (lines 60--73)\<close>

definition reset :: "'g generator \<Rightarrow> int option \<Rightarrow> 'g env \<Rightarrow> (error + observation) \<times> 'g env" where
  "reset G seed e =
     (let g = (case seed of None \<Rightarrow> rng e | Some s \<Rightarrow> gen_seed G s);
          (deck, g') = shuffle G (map int [0..<52]) g;
          e' = \<lparr> rng = g',
                 hands = map (\<lambda>i. sort (take ((i + 1) * 13 - i * 13) (drop (i * 13) deck))) [0..<4],
                 tricks_won = [0 \<mapsto> 0, 1 \<mapsto> 0],
                 tens_won = [0 \<mapsto> 0, 1 \<mapsto> 0],
                 current_trick = Some \<lparr> leader = 0, plays = [] \<rparr>,
                 current_player = 0,
                 done_flag = False,
                 dealt = True,
                 rounds_played = 0 \<rparr>
      in (obs e', e'))"

section \<open>Playing a card (lines 135--163)\<close>

text \<open>
  Python's \<open>min\<close> and \<open>max\<close> with a key return the first element that attains the
  extreme key: the running result is replaced only by a strictly smaller (larger) key.
  Both are given the first element and the rest of a non-empty list.
\<close>

definition min_by :: "('a \<Rightarrow> int) \<Rightarrow> 'a \<Rightarrow> 'a list \<Rightarrow> 'a" where
  "min_by key x xs = foldl (\<lambda>m y. if key y < key m then y else m) x xs"

definition max_by :: "('a \<Rightarrow> int) \<Rightarrow> 'a \<Rightarrow> 'a list \<Rightarrow> 'a" where
  "max_by key x xs = foldl (\<lambda>m y. if key m < key y then y else m) x xs"

definition append_play :: "nat \<times> int \<Rightarrow> trick_state \<Rightarrow> trick_state" where
  "append_play p t = t\<lparr>plays := plays t @ [p]\<rparr>"

text \<open>
  \<open>_play_card\<close>. Every call returns the state it leaves behind, also when it raises,
  since the source mutates the object in place. On success the returned flag tells
  whether the revert-and-replace branch (lines 153--160) ran; the source returns
  \<open>None\<close>. The source's parameter \<open>card\<close> is \<open>cid\<close> here. The calls of \<open>_print_current_trick\<close> write to standard output and change
  no field; they are left out.
\<close>

definition play_card :: "nat \<Rightarrow> int \<Rightarrow> 'g env \<Rightarrow> (error + bool) \<times> 'g env" where
  "play_card pid cid e =
     (if length (hands e) \<le> pid then (Inl IndexError, e)
      else if cid \<notin> set (hands e ! pid) then (Inl ValueError, e)
      else
        let h1 = remove1 cid (hands e ! pid);
            e1 = e\<lparr>hands := (hands e)[pid := h1]\<rparr>
        in case current_trick e1 of
             None \<Rightarrow> (Inl AssertionError, e1)
           | Some t \<Rightarrow>
               let ps = plays t @ [(pid, cid)];
                   e2 = e1\<lparr>current_trick := Some (append_play (pid, cid) t)\<rparr>;
                   lead_suit = suit_of (snd (hd ps));
                   led_suit_cards = filter (\<lambda>c. suit_of c = lead_suit) h1
               in if 1 < length ps \<and> suit_of cid \<noteq> lead_suit then
                    (case led_suit_cards of
                       [] \<Rightarrow> (Inr False, e2\<lparr>current_player := (current_player e2 + 1) mod 4\<rparr>)
                     | c # cs \<Rightarrow>
                         let follow_card = min_by rank_of c cs;
                             h2 = remove1 follow_card (h1 @ [cid]);
                             e3 = e2\<lparr>hands := (hands e2)[pid := h2],
                                     current_trick := Some (append_play (pid, follow_card) t)\<rparr>
                         in (Inr True, e3\<lparr>current_player := (current_player e3 + 1) mod 4\<rparr>))
                  else (Inr False, e2\<lparr>current_player := (current_player e2 + 1) mod 4\<rparr>))"

section \<open>Scoring a trick (lines 172--207)\<close>

definition compute_reward :: "nat \<Rightarrow> real" where
  "compute_reward winner_team = (if winner_team = 0 then 1.0 else - 1.0)"

definition is_trick_complete :: "'g env \<Rightarrow> bool" where
  "is_trick_complete e =
     (case current_trick e of None \<Rightarrow> False | Some t \<Rightarrow> length (plays t) = 4)"

definition winner_of :: "(nat \<times> int) \<Rightarrow> (nat \<times> int) list \<Rightarrow> nat" where
  "winner_of p ps = fst (max_by (\<lambda>pc. rank_of (snd pc)) p ps)"

definition team_of :: "nat \<Rightarrow> nat" where
  "team_of winner_pid = (if winner_pid = 0 \<or> winner_pid = 2 then 0 else 1)"

definition tens_in :: "(nat \<times> int) list \<Rightarrow> int" where
  "tens_in ps = int (length (filter (\<lambda>(_, cid). rank_of cid = 8) ps))"

text \<open>Lines 187--199: reward, round counter, next trick, end of the episode.\<close>

definition finish_trick :: "nat \<Rightarrow> 'g env \<Rightarrow> (error + real) \<times> 'g env" where
  "finish_trick winner_team e =
     (let reward = compute_reward winner_team;
          e1 = e\<lparr>rounds_played := rounds_played e + 1,
                 current_player := 0,
                 current_trick := Some \<lparr> leader = 0, plays = [] \<rparr>\<rparr>
      in if hands e1 = [] then (Inl IndexError, e1)
         else if length (hands e1 ! 0) = 0 then (Inr reward, e1\<lparr>done_flag := True\<rparr>)
         else (Inr reward, e1))"

definition end_trick_and_score :: "'g env \<Rightarrow> (error + real) \<times> 'g env" where
  "end_trick_and_score e =
     (case current_trick e of
        None \<Rightarrow> (Inl AssertionError, e)
      | Some t \<Rightarrow>
          (case plays t of
             [] \<Rightarrow> (Inl ValueError, e)
           | p # ps \<Rightarrow>
               let winner_pid = winner_of p ps;
                   winner_team = team_of winner_pid
               in case tricks_won e winner_team of
                    None \<Rightarrow> (Inl KeyError, e)
                  | Some n \<Rightarrow>
                      let e1 = e\<lparr>tricks_won := (tricks_won e)(winner_team \<mapsto> n + 1)\<rparr>;
                          tens_in_trick = tens_in (plays t)
                      in if tens_in_trick \<noteq> 0 then
                           (case tens_won e1 winner_team of
                              None \<Rightarrow> (Inl KeyError, e1)
                            | Some m \<Rightarrow>
                                finish_trick winner_team
                                  (e1\<lparr>tens_won := (tens_won e1)(winner_team \<mapsto> m + tens_in_trick)\<rparr>))
                         else finish_trick winner_team e1))"

section \<open>step (lines 75--111)\<close>

text \<open>Lines 87--89: a fresh trick when there is none or the current one is full.\<close>

definition start_trick :: "'g env \<Rightarrow> 'g env" where
  "start_trick e =
     (let fresh = e\<lparr>current_trick := Some \<lparr> leader = 0, plays = [] \<rparr>, current_player := 0\<rparr>
      in case current_trick e of
           None \<Rightarrow> fresh
         | Some t \<Rightarrow> if length (plays t) = 4 then fresh else e)"

text \<open>
  Lines 96--101: the seats in \<open>pids\<close> play in turn. A seat with an empty hand is
  skipped; otherwise it draws among its cards of the lead suit, or among all its cards
  when it has none. The result lists the flags of the calls of \<open>play_card\<close>.
\<close>

fun auto_plays :: "'g generator \<Rightarrow> int \<Rightarrow> nat list \<Rightarrow> 'g env \<Rightarrow> (error + bool list) \<times> 'g env" where
  "auto_plays G lead_suit [] e = (Inr [], e)"
| "auto_plays G lead_suit (pid # pids) e =
     (if length (hands e) \<le> pid then (Inl IndexError, e)
      else if hands e ! pid = [] then auto_plays G lead_suit pids e
      else
        let same_suit_cards = filter (\<lambda>c. suit_of c = lead_suit) (hands e ! pid)
        in case choice G (rng e) (if same_suit_cards \<noteq> [] then same_suit_cards else hands e ! pid) of
             (Inl err, g') \<Rightarrow> (Inl err, e\<lparr>rng := g'\<rparr>)
           | (Inr cid, g') \<Rightarrow>
               (case play_card pid cid (e\<lparr>rng := g'\<rparr>) of
                  (Inl err, e1) \<Rightarrow> (Inl err, e1)
                | (Inr f, e1) \<Rightarrow>
                    (case auto_plays G lead_suit pids e1 of
                       (Inl err, e2) \<Rightarrow> (Inl err, e2)
                     | (Inr fs, e2) \<Rightarrow> (Inr (f # fs), e2))))"

text \<open>
  Lines 92--101: the agent's play, the lead suit read from the first play of the trick,
  then seats 1, 2 and 3.
\<close>

definition play_round :: "'g generator \<Rightarrow> int \<Rightarrow> 'g env \<Rightarrow> (error + bool list) \<times> 'g env" where
  "play_round G action e =
     (case play_card 0 action e of
        (Inl err, e1) \<Rightarrow> (Inl err, e1)
      | (Inr f, e1) \<Rightarrow>
          (case current_trick e1 of
             None \<Rightarrow> (Inl AttributeError, e1)
           | Some t \<Rightarrow>
               (case plays t of
                  [] \<Rightarrow> (Inl IndexError, e1)
                | p # _ \<Rightarrow>
                    (case auto_plays G (suit_of (snd p)) [1, 2, 3] e1 of
                       (Inl err, e2) \<Rightarrow> (Inl err, e2)
                     | (Inr fs, e2) \<Rightarrow> (Inr (f # fs), e2)))))"

text \<open>
  \<open>step\<close> returns the observation, the reward, \<open>terminated\<close> and \<open>truncated\<close>;
  the fifth component of the source's result, \<open>info\<close>, is always the empty dictionary.
  The flags of \<open>play_round\<close> are dropped.
\<close>

definition step ::
  "'g generator \<Rightarrow> int \<Rightarrow> 'g env \<Rightarrow> (error + observation \<times> real \<times> bool \<times> bool) \<times> 'g env" where
  "step G action e =
     (if done_flag e then (Inl EpisodeFinished, e)
      else if hands e = [] then (Inl IndexError, e)
      else if action \<notin> set (hands e ! 0) then (Inl InvalidAction, e)
      else
        case play_round G action (start_trick e) of
          (Inl err, e1) \<Rightarrow> (Inl err, e1)
        | (Inr _, e1) \<Rightarrow>
            (case (if is_trick_complete e1 then end_trick_and_score e1 else (Inr 0.0, e1)) of
               (Inl err, e2) \<Rightarrow> (Inl err, e2)
             | (Inr reward, e2) \<Rightarrow>
                 (case obs e2 of
                    Inl err \<Rightarrow> (Inl err, e2)
                  | Inr ob \<Rightarrow> (Inr (ob, reward, done_flag e2, False), e2))))"

section \<open>A concrete generator\<close>

text \<open>
  A linear congruential generator on \<open>int\<close>, used where a theorem is applied to a
  concrete input.
\<close>

definition lcg :: "int generator" where
  "lcg = \<lparr> gen_seed = (\<lambda>s. \<bar>s\<bar> mod 2147483648),
            gen_below = (\<lambda>g n. (nat ((g div 65536) mod int n),
                                  (g * 1103515245 + 12345) mod 2147483648)) \<rparr>"

section \<open>Auxiliary notions\<close>

text \<open>
  One score dictionary is below another when every team's count in the first is at most
  its count in the second.
\<close>

definition counters_le :: "(nat \<rightharpoonup> int) \<Rightarrow> (nat \<rightharpoonup> int) \<Rightarrow> bool" where
  "counters_le m m' = (\<forall>team n. m team = Some n \<longrightarrow> (\<exists>n'. m' team = Some n' \<and> n \<le> n'))"

text \<open>
  A state with a full trick waiting to be scored: seats 1 and 2 both played a king,
  seats 0 and 3 a ten.
\<close>

definition scored_example :: "int env" where
  "scored_example =
     \<lparr> rng = 0,
       hands = [[5], [12], [30], [40]],
       tricks_won = [0 \<mapsto> 0, 1 \<mapsto> 0],
       tens_won = [0 \<mapsto> 0, 1 \<mapsto> 0],
       current_trick = Some \<lparr> leader = 0, plays = [(0, 8), (1, 11), (2, 24), (3, 21)] \<rparr>,
       current_player = 0,
       done_flag = False,
       dealt = True,
       rounds_played = 0 \<rparr>"

text \<open>
  The states of an episode. \<open>unstarted\<close> is the state \<open>__init__\<close> leaves: no cards
  dealt, no trick. \<open>in_round k\<close> is a state with \<open>k\<close> tricks resolved since the last
  \<open>reset\<close>: four hands of \<open>13 - k\<close> cards, an empty trick led by seat 0, both
  dictionaries with the keys 0 and 1.
\<close>

definition unstarted :: "'g env \<Rightarrow> bool" where
  "unstarted e \<longleftrightarrow> hands e = [[], [], [], []] \<and> current_trick e = None \<and> \<not> done_flag e"

definition in_round :: "nat \<Rightarrow> 'g env \<Rightarrow> bool" where
  "in_round k e \<longleftrightarrow>
     k \<le> 13 \<and> length (hands e) = 4 \<and> (\<forall>p<4. length (hands e ! p) = 13 - k)
     \<and> current_trick e = Some \<lparr> leader = 0, plays = [] \<rparr>
     \<and> (done_flag e \<longleftrightarrow> k = 13) \<and> rounds_played e = k
     \<and> (\<exists>a b. tricks_won e 0 = Some a \<and> tricks_won e 1 = Some b \<and> a + b = int k)
     \<and> (\<exists>a b. tens_won e 0 = Some a \<and> tens_won e 1 = Some b)"

text \<open>
  The states a caller can bring an environment into: it constructs the object, and then
  calls \<open>reset\<close> and \<open>step\<close> in any order with any arguments, whether the calls
  succeed or raise.
\<close>

inductive reachable :: "'g generator \<Rightarrow> 'g env \<Rightarrow> bool" for G :: "'g generator" where
  created: "reachable G (init G seed g0)"
| after_reset: "reachable G e \<Longrightarrow> reachable G (snd (reset G seed e))"
| after_step: "reachable G e \<Longrightarrow> reachable G (snd (step G action e))"

text \<open>
  A driver in the manner of \<open>run_highest.py\<close> and \<open>run_random.py\<close>: it feeds the
  actions to \<open>step\<close> one after the other and stops at the first call that raises.
\<close>

fun run_steps :: "'g generator \<Rightarrow> int list \<Rightarrow> 'g env \<Rightarrow> error + 'g env" where
  "run_steps G [] e = Inr e"
| "run_steps G (a # as) e =
     (case step G a e of
        (Inl err, e') \<Rightarrow> Inl err
      | (Inr res, e') \<Rightarrow> run_steps G as e')"

text \<open>
  The actions of an agent that always plays the first card of its hand, for \<open>n\<close> tricks.
\<close>

fun first_card_actions :: "'g generator \<Rightarrow> nat \<Rightarrow> 'g env \<Rightarrow> int list" where
  "first_card_actions G 0 e = []"
| "first_card_actions G (Suc n) e =
     (let a = hd (hands e ! 0) in a # first_card_actions G n (snd (step G a e)))"


text \<open>
  A freshly dealt episode, and a state in which seat 2 holds no card of the suit seat 0
  is about to lead.
\<close>

definition dealt_example :: "int env" where
  "dealt_example = snd (reset lcg (Some 7) (init lcg None 0))"


section \<open>Theorems\<close>

text \<open>
  C7. Encoding the decoded pair of a card identifier gives the identifier back:
  \<open>encode_card\<close> applied to the rank and suit returned by \<open>decode_card\<close> is the
  identity. It holds for every integer, so in particular for every identifier in [0,52).
\<close>

theorem codec_roundtrip:
  "(case decode_card card_id of (rank, suit) \<Rightarrow> encode_card rank suit) = card_id"
  by (simp add: decode_card_def encode_card_def rank_of_def suit_of_def)

text \<open>
  C6. \<open>step\<close> raises \<open>EpisodeFinished\<close> when \<open>done\<close> is true, and raises
  \<open>InvalidAction\<close> when \<open>done\<close> is false and the submitted card is not in seat 0's
  hand. In both cases the state after the call is the state before it, every field
  included (hands, trick, scores, done flag, random generator).
\<close>

theorem step_failure_unchanged:
  "(done_flag e \<longrightarrow> step G action e = (Inl EpisodeFinished, e)) \<and>
   (\<not> done_flag e \<and> hands e \<noteq> [] \<and> action \<notin> set (hands e ! 0)
      \<longrightarrow> step G action e = (Inl InvalidAction, e))"
  by (simp add: step_def)

subsection \<open>Scoring\<close>

lemma max_by_first_max:
  "\<exists>i<Suc (length xs). max_by key x xs = (x # xs) ! i
      \<and> (\<forall>j<Suc (length xs). key ((x # xs) ! j) \<le> key ((x # xs) ! i))
      \<and> (\<forall>j<i. key ((x # xs) ! j) < key ((x # xs) ! i))"
proof (induction xs rule: rev_induct)
  case Nil
  show ?case by (simp add: max_by_def)
next
  case (snoc y ys)
  then obtain i where i: "i < Suc (length ys)" "max_by key x ys = (x # ys) ! i"
    "\<forall>j<Suc (length ys). key ((x # ys) ! j) \<le> key ((x # ys) ! i)"
    "\<forall>j<i. key ((x # ys) ! j) < key ((x # ys) ! i)" by blast
  have step: "max_by key x (ys @ [y]) = (if key (max_by key x ys) < key y then y else max_by key x ys)"
    by (simp add: max_by_def)
  have nth_old: "\<And>j. j < Suc (length ys) \<Longrightarrow> (x # ys @ [y]) ! j = (x # ys) ! j"
    by (metis append_Cons length_Cons nth_append)
  have nth_new: "(x # ys @ [y]) ! Suc (length ys) = y"
    by (metis append_Cons length_Cons nth_append_length)
  show ?case
  proof (cases "key (max_by key x ys) < key y")
    case True
    have "\<forall>j<Suc (length (ys @ [y])). key ((x # ys @ [y]) ! j) \<le> key y"
    proof (intro allI impI)
      fix j assume "j < Suc (length (ys @ [y]))"
      then consider "j < Suc (length ys)" | "j = Suc (length ys)" by fastforce
      then show "key ((x # ys @ [y]) ! j) \<le> key y"
      proof cases
        case 1 then show ?thesis using i True nth_old by (metis less_le_not_le order_trans linorder_le_cases)
      next
        case 2 then show ?thesis using nth_new by simp
      qed
    qed
    moreover have "\<forall>j<Suc (length ys). key ((x # ys @ [y]) ! j) < key y"
      using i True nth_old by (metis le_less_trans)
    ultimately show ?thesis
      using True step nth_new
      by (intro exI[of _ "Suc (length ys)"]) simp
  next
    case False
    have "\<forall>j<Suc (length (ys @ [y])). key ((x # ys @ [y]) ! j) \<le> key ((x # ys) ! i)"
    proof (intro allI impI)
      fix j assume "j < Suc (length (ys @ [y]))"
      then consider "j < Suc (length ys)" | "j = Suc (length ys)" by fastforce
      then show "key ((x # ys @ [y]) ! j) \<le> key ((x # ys) ! i)"
      proof cases
        case 1 then show ?thesis using i nth_old by simp
      next
        case 2 then show ?thesis using nth_new False i by simp
      qed
    qed
    moreover have "\<forall>j<i. key ((x # ys @ [y]) ! j) < key ((x # ys) ! i)"
      using i nth_old by simp
    ultimately show ?thesis
      using False step i nth_old[of i]
      by (intro exI[of _ i]) simp
  qed
qed

lemma end_trick_and_score_ok:
  assumes "current_trick e = Some t" "plays t = p # ps" "hands e \<noteq> []"
    and "w = team_of (winner_of p ps)"
    and "tricks_won e w = Some a" "tens_won e w = Some b"
  shows "end_trick_and_score e =
    (Inr (compute_reward w),
     e\<lparr>tricks_won := (tricks_won e)(w \<mapsto> a + 1),
       tens_won := (tens_won e)(w \<mapsto> b + tens_in (plays t)),
       rounds_played := rounds_played e + 1,
       current_player := 0,
       current_trick := Some \<lparr> leader = 0, plays = [] \<rparr>,
       done_flag := (done_flag e \<or> hands e ! 0 = [])\<rparr>)"
proof -
  have triv: "(tens_won e)(w \<mapsto> b) = tens_won e"
    using assms(6) by (simp add: fun_upd_idem)
  show ?thesis
    using assms triv
    by (simp add: end_trick_and_score_def finish_trick_def Let_def)
qed

lemma scored_trick:
  assumes "current_trick e = Some t" "length (plays t) = 4" "hands e \<noteq> []"
    and "tricks_won e 0 = Some a0" "tricks_won e 1 = Some a1"
    and "tens_won e 0 = Some b0" "tens_won e 1 = Some b1"
  shows "\<exists>i w a b. i < 4
    \<and> (\<forall>j<4. rank_of (snd (plays t ! j)) \<le> rank_of (snd (plays t ! i)))
    \<and> (\<forall>j<i. rank_of (snd (plays t ! j)) < rank_of (snd (plays t ! i)))
    \<and> w = (if fst (plays t ! i) = 0 \<or> fst (plays t ! i) = 2 then 0 else 1)
    \<and> tricks_won e w = Some a \<and> tens_won e w = Some b
    \<and> end_trick_and_score e =
        (Inr (compute_reward w),
         e\<lparr>tricks_won := (tricks_won e)(w \<mapsto> a + 1),
           tens_won := (tens_won e)(w \<mapsto> b + tens_in (plays t)),
           rounds_played := rounds_played e + 1,
           current_player := 0,
           current_trick := Some \<lparr> leader = 0, plays = [] \<rparr>,
           done_flag := (done_flag e \<or> hands e ! 0 = [])\<rparr>)"
proof -
  from assms(2) obtain p ps where ps: "plays t = p # ps" "length ps = 3"
    by (cases "plays t") auto
  from max_by_first_max [of ps "\<lambda>pc. rank_of (snd pc)" p] ps
  obtain i where i: "i < 4" "max_by (\<lambda>pc. rank_of (snd pc)) p ps = plays t ! i"
    "\<forall>j<4. rank_of (snd (plays t ! j)) \<le> rank_of (snd (plays t ! i))"
    "\<forall>j<i. rank_of (snd (plays t ! j)) < rank_of (snd (plays t ! i))"
    by auto
  define w where "w = team_of (winner_of p ps)"
  have w: "w = (if fst (plays t ! i) = 0 \<or> fst (plays t ! i) = 2 then 0 else 1)"
    by (simp add: w_def team_of_def winner_of_def i(2))
  have "w = 0 \<or> w = 1" by (simp add: w)
  then obtain a b where ab: "tricks_won e w = Some a" "tens_won e w = Some b"
    using assms(4-7) by auto
  note ok = end_trick_and_score_ok [OF assms(1) ps(1) assms(3) w_def ab]
  show ?thesis
    using i(1,3,4) w ab ok by blast
qed




lemma start_trick_scores [simp]:
  "tricks_won (start_trick e) = tricks_won e" "tens_won (start_trick e) = tens_won e"
  by (simp_all add: start_trick_def Let_def split: option.splits)

lemma counters_le_refl [simp]: "counters_le m m"
  by (simp add: counters_le_def)



lemma finish_trick_scores [simp]:
  "tricks_won (snd (finish_trick w e)) = tricks_won e"
  "tens_won (snd (finish_trick w e)) = tens_won e"
  by (simp_all add: finish_trick_def Let_def)




lemmas score_defs = end_trick_and_score_def finish_trick_def winner_of_def max_by_def
  team_of_def tens_in_def compute_reward_def rank_of_def

text \<open>
  C2. When a trick of four plays is scored, the winner is the play of maximum rank, suit
  ignored: its rank is at least the rank of every play, and strictly above the rank of
  every earlier play, so among plays of equal maximal rank the first in play order wins.
  The team of the winning seat (team 0 for seats 0 and 2, team 1 otherwise) has its
  \<open>tricks_won\<close> counter incremented by exactly 1.
\<close>

theorem trick_winner:
  assumes "current_trick e = Some t" "length (plays t) = 4" "hands e \<noteq> []"
    and "tricks_won e 0 = Some a0" "tricks_won e 1 = Some a1"
    and "tens_won e 0 = Some b0" "tens_won e 1 = Some b1"
  shows "\<exists>i<4. \<exists>r e' n.
      (\<forall>j<4. rank_of (snd (plays t ! j)) \<le> rank_of (snd (plays t ! i)))
    \<and> (\<forall>j<i. rank_of (snd (plays t ! j)) < rank_of (snd (plays t ! i)))
    \<and> end_trick_and_score e = (Inr r, e')
    \<and> tricks_won e (if fst (plays t ! i) = 0 \<or> fst (plays t ! i) = 2 then 0 else 1) = Some n
    \<and> tricks_won e' (if fst (plays t ! i) = 0 \<or> fst (plays t ! i) = 2 then 0 else 1) = Some (n + 1)"
proof -
  from scored_trick [OF assms]
  obtain i w a b e' where *: "i < 4"
    "\<forall>j<4. rank_of (snd (plays t ! j)) \<le> rank_of (snd (plays t ! i))"
    "\<forall>j<i. rank_of (snd (plays t ! j)) < rank_of (snd (plays t ! i))"
    "w = (if fst (plays t ! i) = 0 \<or> fst (plays t ! i) = 2 then 0 else 1)"
    "tricks_won e w = Some a"
    "end_trick_and_score e = (Inr (compute_reward w), e')"
    "e' = e\<lparr>tricks_won := (tricks_won e)(w \<mapsto> a + 1),
           tens_won := (tens_won e)(w \<mapsto> b + tens_in (plays t)),
           rounds_played := rounds_played e + 1,
           current_player := 0,
           current_trick := Some \<lparr> leader = 0, plays = [] \<rparr>,
           done_flag := (done_flag e \<or> hands e ! 0 = [])\<rparr>"
    by blast
  have "tricks_won e' w = Some (a + 1)" by (simp add: *(7))
  with * show ?thesis by blast
qed

theorem trick_winner_witness:
  "\<exists>r e'. end_trick_and_score scored_example = (Inr r, e')
      \<and> tricks_won e' 0 = Some 0 \<and> tricks_won e' 1 = Some 1"
  using trick_winner [of scored_example
      "\<lparr> leader = 0, plays = [(0, 8), (1, 11), (2, 24), (3, 21)] \<rparr>" 0 0 0 0]
  by (simp add: scored_example_def score_defs)



subsection \<open>Playing a round\<close>

lemma min_by_in: "min_by key x xs \<in> set (x # xs)"
proof (induction xs rule: rev_induct)
  case Nil
  show ?case by (simp add: min_by_def)
next
  case (snoc y ys)
  have "min_by key x (ys @ [y]) = (if key y < key (min_by key x ys) then y else min_by key x ys)"
    by (simp add: min_by_def)
  with snoc show ?case by auto
qed

lemma play_card_lead:
  assumes "pid < length (hands e)" "cid \<in> set (hands e ! pid)"
    and "current_trick e = Some t" "plays t = []"
  shows "play_card pid cid e =
    (Inr False, e\<lparr>hands := (hands e)[pid := remove1 cid (hands e ! pid)],
                  current_trick := Some (append_play (pid, cid) t),
                  current_player := (current_player e + 1) mod 4\<rparr>)"
  using assms by (simp add: play_card_def Let_def)

lemma play_card_follow:
  assumes "pid < length (hands e)" "cid \<in> set (hands e ! pid)"
    and "current_trick e = Some t" "plays t \<noteq> []"
    and "lead = suit_of (snd (hd (plays t)))"
  shows "\<exists>f c' h'. play_card pid cid e =
      (Inr f, e\<lparr>hands := (hands e)[pid := h'],
                current_trick := Some (append_play (pid, c') t),
                current_player := (current_player e + 1) mod 4\<rparr>)
    \<and> c' \<in> set (hands e ! pid)
    \<and> mset h' = mset (hands e ! pid) - {#c'#}
    \<and> (suit_of c' = lead \<or> (\<forall>c\<in>set (hands e ! pid). suit_of c \<noteq> lead))
    \<and> (f \<longrightarrow> suit_of cid \<noteq> lead \<and> (\<exists>c\<in>set (remove1 cid (hands e ! pid)). suit_of c = lead))
    \<and> (\<not> f \<longrightarrow> c' = cid)"
proof -
  define h where "h = hands e ! pid"
  define h1 where "h1 = remove1 cid h"
  define led where "led = filter (\<lambda>c. suit_of c = lead) h1"
  have hd: "hd (plays t @ [(pid, cid)]) = hd (plays t)" using assms(4) by simp
  have len: "1 < length (plays t @ [(pid, cid)])" using assms(4) by (cases "plays t") auto
  have h1set: "set h1 \<subseteq> set h" using set_remove1_subset [of cid h] by (simp add: h1_def)
  have msh1: "mset h1 + {#cid#} = mset h" using assms(2) by (simp add: h1_def h_def)
  show ?thesis
  proof (cases "suit_of cid \<noteq> lead \<and> led \<noteq> []")
    case False
    have pc: "play_card pid cid e =
      (Inr False, e\<lparr>hands := (hands e)[pid := h1],
                  current_trick := Some (append_play (pid, cid) t),
                  current_player := (current_player e + 1) mod 4\<rparr>)"
      using assms False hd len
      by (auto simp add: play_card_def Let_def h_def h1_def led_def split: list.splits)
    have "suit_of cid = lead \<or> (\<forall>c\<in>set h. suit_of c \<noteq> lead)"
    proof (cases "suit_of cid = lead")
      case True then show ?thesis by simp
    next
      case ne: False
      with False have "led = []" by simp
      then have "\<forall>c\<in>set h1. suit_of c \<noteq> lead" by (auto simp add: led_def filter_empty_conv)
      moreover have "set h = insert cid (set h1)"
        using arg_cong [OF msh1, of set_mset] by simp
      ultimately show ?thesis using ne by auto
    qed
    moreover have "mset h1 = mset h - {#cid#}" using msh1 by (metis add_mset_add_single add_mset_remove_trivial)
    ultimately show ?thesis
      using pc assms(2) by (intro exI[of _ False] exI[of _ cid] exI[of _ h1]) (simp add: h_def)
  next
    case True
    then obtain c cs where led: "led = c # cs" by (cases led) auto
    define fc where "fc = min_by rank_of c cs"
    define h2 where "h2 = remove1 fc (h1 @ [cid])"
    have fc_led: "fc \<in> set led" using min_by_in [of rank_of c cs] by (simp add: fc_def led)
    then have fc1: "fc \<in> set h1" "suit_of fc = lead" by (auto simp add: led_def)
    have pc: "play_card pid cid e =
      (Inr True, e\<lparr>hands := (hands e)[pid := h2],
                  current_trick := Some (append_play (pid, fc) t),
                  current_player := (current_player e + 1) mod 4\<rparr>)"
      using assms True hd len led [unfolded led_def h1_def h_def]
      by (simp add: play_card_def Let_def h_def h1_def h2_def fc_def)
    have "mset h2 = mset h - {#fc#}"
      using msh1 by (simp add: h2_def)
    moreover have "\<exists>c\<in>set h1. suit_of c = lead" using fc1 by blast
    ultimately show ?thesis
      using pc fc1 h1set True
      by (intro exI[of _ True] exI[of _ fc] exI[of _ h2]) (auto simp add: h_def h1_def)
  qed
qed

lemma choice_ok:
  assumes "seq \<noteq> []"
  shows "\<exists>c g'. choice G g seq = (Inr c, g') \<and> c \<in> set seq"
proof -
  obtain r g' where r: "gen_below G g (length seq) = (r, g')"
    by (cases "gen_below G g (length seq)")
  have "r mod length seq < length seq" using assms by simp
  then have "seq ! (r mod length seq) \<in> set seq" by simp
  then show ?thesis using assms r by (simp add: choice_def randbelow_def)
qed

lemma auto_plays_spec:
  assumes "current_trick e = Some t" "plays t \<noteq> []" "lead = suit_of (snd (hd (plays t)))"
    and "distinct pids" "\<forall>p\<in>set pids. p < length (hands e)"
  shows "\<exists>fs e' t' new. auto_plays G lead pids e = (Inr fs, e')
    \<and> current_trick e' = Some t' \<and> plays t' = plays t @ new \<and> leader t' = leader t
    \<and> length (hands e') = length (hands e)
    \<and> (\<forall>q. q \<notin> set pids \<longrightarrow> hands e' ! q = hands e ! q)
    \<and> map fst new = filter (\<lambda>p. hands e ! p \<noteq> []) pids
    \<and> (\<forall>(s, c)\<in>set new. c \<in> set (hands e ! s)
          \<and> (suit_of c = lead \<or> (\<forall>c'\<in>set (hands e ! s). suit_of c' \<noteq> lead)))
    \<and> (\<forall>p\<in>set pids. length (hands e' ! p) = length (hands e ! p) - 1)
    \<and> True \<notin> set fs
    \<and> done_flag e' = done_flag e \<and> rounds_played e' = rounds_played e
    \<and> dealt e' = dealt e \<and> tricks_won e' = tricks_won e \<and> tens_won e' = tens_won e
    \<and> length fs = length new"
  using assms
proof (induction pids arbitrary: e t)
  case Nil
  then show ?case by simp
next
  case (Cons pid pids)
  have pid: "pid < length (hands e)" "pid \<notin> set pids" "distinct pids"
    "\<forall>p\<in>set pids. p < length (hands e)"
    using Cons.prems by auto
  show ?case
  proof (cases "hands e ! pid = []")
    case True
    from Cons.IH [OF Cons.prems(1-3) pid(3,4)]
    obtain fs e' t' new where ih: "auto_plays G lead pids e = (Inr fs, e')"
      "current_trick e' = Some t'" "plays t' = plays t @ new" "leader t' = leader t"
      "length (hands e') = length (hands e)"
      "\<forall>q. q \<notin> set pids \<longrightarrow> hands e' ! q = hands e ! q"
      "map fst new = filter (\<lambda>p. hands e ! p \<noteq> []) pids"
      "\<forall>(s, c)\<in>set new. c \<in> set (hands e ! s)
          \<and> (suit_of c = lead \<or> (\<forall>c'\<in>set (hands e ! s). suit_of c' \<noteq> lead))"
      "\<forall>p\<in>set pids. length (hands e' ! p) = length (hands e ! p) - 1"
      "True \<notin> set fs"
      "done_flag e' = done_flag e \<and> rounds_played e' = rounds_played e
        \<and> dealt e' = dealt e \<and> tricks_won e' = tricks_won e \<and> tens_won e' = tens_won e"
      "length fs = length new"
      by blast
    have ap: "auto_plays G lead (pid # pids) e = (Inr fs, e')"
      using True pid(1) ih(1) by simp
    have "hands e' ! pid = []" using ih(6) pid(2) True by simp
    then have "\<forall>p\<in>set (pid # pids). length (hands e' ! p) = length (hands e ! p) - 1"
      using ih(9) True by simp
    moreover have "\<forall>q. q \<notin> set (pid # pids) \<longrightarrow> hands e' ! q = hands e ! q"
      using ih(6) by simp
    moreover have "map fst new = filter (\<lambda>p. hands e ! p \<noteq> []) (pid # pids)"
      using ih(7) True by simp
    ultimately show ?thesis
      using ap ih(2-5,8,10,11,12) by blast
  next
    case False
    define same where "same = filter (\<lambda>c. suit_of c = lead) (hands e ! pid)"
    define seq where "seq = (if same \<noteq> [] then same else hands e ! pid)"
    have "seq \<noteq> []" using False by (simp add: seq_def)
    from choice_ok [OF this, of G "rng e"]
    obtain cid g' where ch: "choice G (rng e) seq = (Inr cid, g')" "cid \<in> set seq" by blast
    have cid: "cid \<in> set (hands e ! pid)"
      using ch(2) by (auto simp add: seq_def same_def split: if_splits)
    define eg where "eg = e\<lparr>rng := g'\<rparr>"
    have eg: "hands eg = hands e" "current_trick eg = Some t" by (simp_all add: eg_def Cons.prems(1))
    from play_card_follow [of pid eg cid t lead] pid(1) cid eg Cons.prems(2,3)
    obtain f c' h' where pc: "play_card pid cid eg =
        (Inr f, eg\<lparr>hands := (hands eg)[pid := h'],
                  current_trick := Some (append_play (pid, c') t),
                  current_player := (current_player eg + 1) mod 4\<rparr>)"
      "c' \<in> set (hands e ! pid)"
      "mset h' = mset (hands e ! pid) - {#c'#}"
      "suit_of c' = lead \<or> (\<forall>c\<in>set (hands e ! pid). suit_of c \<noteq> lead)"
      "f \<longrightarrow> suit_of cid \<noteq> lead \<and> (\<exists>c\<in>set (remove1 cid (hands e ! pid)). suit_of c = lead)"
      by auto
    have nf: "\<not> f"
    proof
      assume f
      with pc(5) obtain c where c: "suit_of cid \<noteq> lead" "c \<in> set (remove1 cid (hands e ! pid))"
        "suit_of c = lead" by blast
      from c(2) have "c \<in> set (hands e ! pid)" using set_remove1_subset by fastforce
      with c(3) have "same \<noteq> []" by (auto simp add: same_def filter_empty_conv)
      with ch(2) have "suit_of cid = lead" by (simp add: seq_def same_def)
      with c(1) show False by simp
    qed
    have lenh': "length h' = length (hands e ! pid) - 1"
      using pc(2,3) by (metis size_mset size_Diff_singleton set_mset_mset)
    define e1 where "e1 = eg\<lparr>hands := (hands eg)[pid := h'],
                  current_trick := Some (append_play (pid, c') t),
                  current_player := (current_player eg + 1) mod 4\<rparr>"
    define t1 where "t1 = append_play (pid, c') t"
    have e1: "current_trick e1 = Some t1" "plays t1 \<noteq> []" "lead = suit_of (snd (hd (plays t1)))"
      "\<forall>p\<in>set pids. p < length (hands e1)" "hands e1 = (hands e)[pid := h']"
      using Cons.prems(2,3) pid(4)
      by (simp_all add: e1_def t1_def append_play_def eg)
    from Cons.IH [OF e1(1-3) pid(3) e1(4)]
    obtain fs e' t' new where ih: "auto_plays G lead pids e1 = (Inr fs, e')"
      "current_trick e' = Some t'" "plays t' = plays t1 @ new" "leader t' = leader t1"
      "length (hands e') = length (hands e1)"
      "\<forall>q. q \<notin> set pids \<longrightarrow> hands e' ! q = hands e1 ! q"
      "map fst new = filter (\<lambda>p. hands e1 ! p \<noteq> []) pids"
      "\<forall>(s, c)\<in>set new. c \<in> set (hands e1 ! s)
          \<and> (suit_of c = lead \<or> (\<forall>c'\<in>set (hands e1 ! s). suit_of c' \<noteq> lead))"
      "\<forall>p\<in>set pids. length (hands e' ! p) = length (hands e1 ! p) - 1"
      "True \<notin> set fs"
      "done_flag e' = done_flag e1 \<and> rounds_played e' = rounds_played e1
        \<and> dealt e' = dealt e1 \<and> tricks_won e' = tricks_won e1 \<and> tens_won e' = tens_won e1"
      "length fs = length new"
      by blast
    have same_hand: "\<And>p. p \<in> set pids \<Longrightarrow> hands e1 ! p = hands e ! p"
      using pid(2) by (metis e1(5) nth_list_update_neq)
    have new_in: "\<And>s c. (s, c) \<in> set new \<Longrightarrow> s \<in> set pids"
    proof -
      fix s c assume "(s, c) \<in> set new"
      then have "s \<in> set (map fst new)" by force
      then show "s \<in> set pids" using ih(7) by simp
    qed
    have pc': "play_card pid cid eg = (Inr f, e1)" using pc(1) by (simp only: e1_def)
    have ap: "auto_plays G lead (pid # pids) e = (Inr (f # fs), e')"
      using False pid(1) ch(1) pc' ih(1)
      by (simp add: Let_def same_def [symmetric] seq_def [symmetric] eg_def [symmetric])
    have c2: "current_trick e' = Some t'" "plays t' = plays t @ ((pid, c') # new)"
      "leader t' = leader t"
      using ih(2-4) by (simp_all add: t1_def append_play_def)
    have c5: "length (hands e') = length (hands e)" using ih(5) e1(5) by simp
    have c6: "\<forall>q. q \<notin> set (pid # pids) \<longrightarrow> hands e' ! q = hands e ! q"
      using ih(6) e1(5) by simp
    have c7: "map fst ((pid, c') # new) = filter (\<lambda>p. hands e ! p \<noteq> []) (pid # pids)"
    proof -
      have "filter (\<lambda>p. hands e1 ! p \<noteq> []) pids = filter (\<lambda>p. hands e ! p \<noteq> []) pids"
        using same_hand by (intro filter_cong) simp_all
      then show ?thesis using ih(7) False by simp
    qed
    have c8: "\<forall>(s, c)\<in>set ((pid, c') # new). c \<in> set (hands e ! s)
          \<and> (suit_of c = lead \<or> (\<forall>c'\<in>set (hands e ! s). suit_of c' \<noteq> lead))"
    proof (intro ballI)
      fix x assume x: "x \<in> set ((pid, c') # new)"
      obtain s c where sc: "x = (s, c)" by (cases x)
      from x sc consider "s = pid \<and> c = c'" | "(s, c) \<in> set new" by auto
      then have "c \<in> set (hands e ! s)
          \<and> (suit_of c = lead \<or> (\<forall>c'\<in>set (hands e ! s). suit_of c' \<noteq> lead))"
      proof cases
        case 1
        then show ?thesis using pc(2,4) by simp
      next
        case 2
        then have "hands e1 ! s = hands e ! s" using new_in same_hand by blast
        moreover have "c \<in> set (hands e1 ! s)
          \<and> (suit_of c = lead \<or> (\<forall>c'\<in>set (hands e1 ! s). suit_of c' \<noteq> lead))"
          using ih(8) 2 by blast
        ultimately show ?thesis by simp
      qed
      then show "case x of (s, c) \<Rightarrow> c \<in> set (hands e ! s)
          \<and> (suit_of c = lead \<or> (\<forall>c'\<in>set (hands e ! s). suit_of c' \<noteq> lead))"
        by (simp add: sc)
    qed
    have "hands e' ! pid = h'" using ih(6) pid(1,2) e1(5) by simp
    then have c9: "\<forall>p\<in>set (pid # pids). length (hands e' ! p) = length (hands e ! p) - 1"
      using ih(9) same_hand lenh' by simp
    have c10: "True \<notin> set (f # fs)" using nf ih(10) by simp
    have c11: "done_flag e' = done_flag e \<and> rounds_played e' = rounds_played e
        \<and> dealt e' = dealt e \<and> tricks_won e' = tricks_won e \<and> tens_won e' = tens_won e"
      using ih(11) by (simp add: e1_def eg_def)
    have c12: "length (f # fs) = length ((pid, c') # new)" using ih(12) by simp
    show ?thesis
      using ap c2 c5 c6 c7 c8 c9 c10 c11 c12 by blast
  qed
qed

lemma play_round_spec:
  assumes "current_trick e = Some t" "plays t = []" "length (hands e) = 4"
    and "action \<in> set (hands e ! 0)"
  shows "\<exists>fs e' t' new. play_round G action e = (Inr fs, e')
    \<and> current_trick e' = Some t' \<and> plays t' = (0, action) # new \<and> leader t' = leader t
    \<and> length (hands e') = 4
    \<and> hands e' ! 0 = remove1 action (hands e ! 0)
    \<and> map fst new = filter (\<lambda>p. hands e ! p \<noteq> []) [1, 2, 3]
    \<and> (\<forall>(s, c)\<in>set new. c \<in> set (hands e ! s)
          \<and> (suit_of c = suit_of action \<or> (\<forall>c'\<in>set (hands e ! s). suit_of c' \<noteq> suit_of action)))
    \<and> (\<forall>p\<in>{1, 2, 3}. length (hands e' ! p) = length (hands e ! p) - 1)
    \<and> True \<notin> set fs
    \<and> done_flag e' = done_flag e \<and> rounds_played e' = rounds_played e
    \<and> dealt e' = dealt e \<and> tricks_won e' = tricks_won e \<and> tens_won e' = tens_won e
    \<and> length fs = Suc (length new)"
proof -
  define e1 where "e1 = e\<lparr>hands := (hands e)[0 := remove1 action (hands e ! 0)],
                  current_trick := Some (append_play (0, action) t),
                  current_player := (current_player e + 1) mod 4\<rparr>"
  define t1 where "t1 = append_play (0, action) t"
  have pc: "play_card 0 action e = (Inr False, e1)"
    using play_card_lead [of 0 e action t] assms by (simp only: e1_def)
  have e1: "current_trick e1 = Some t1" "plays t1 = [(0, action)]" "leader t1 = leader t"
    "hands e1 = (hands e)[0 := remove1 action (hands e ! 0)]"
    using assms(2) by (simp_all add: e1_def t1_def append_play_def)
  have pre: "plays t1 \<noteq> []" "suit_of action = suit_of (snd (hd (plays t1)))"
    "distinct [1, 2, 3::nat]" "\<forall>p\<in>set [1, 2, 3]. p < length (hands e1)"
    using assms(3) by (simp_all add: e1)
  from auto_plays_spec [OF e1(1) pre, of G]
  obtain fs e' t' new where ap: "auto_plays G (suit_of action) [1, 2, 3] e1 = (Inr fs, e')"
      "current_trick e' = Some t'" "plays t' = plays t1 @ new" "leader t' = leader t1"
      "length (hands e') = length (hands e1)"
      "\<forall>q. q \<notin> set [1, 2, 3] \<longrightarrow> hands e' ! q = hands e1 ! q"
      "map fst new = filter (\<lambda>p. hands e1 ! p \<noteq> []) [1, 2, 3]"
      "\<forall>(s, c)\<in>set new. c \<in> set (hands e1 ! s)
          \<and> (suit_of c = suit_of action \<or> (\<forall>c'\<in>set (hands e1 ! s). suit_of c' \<noteq> suit_of action))"
      "\<forall>p\<in>set [1, 2, 3]. length (hands e' ! p) = length (hands e1 ! p) - 1"
      "True \<notin> set fs"
      "done_flag e' = done_flag e1 \<and> rounds_played e' = rounds_played e1
        \<and> dealt e' = dealt e1 \<and> tricks_won e' = tricks_won e1 \<and> tens_won e' = tens_won e1"
      "length fs = length new"
    by blast
  have same_hand: "\<And>p. p \<in> {1, 2, 3} \<Longrightarrow> hands e1 ! p = hands e ! p"
    by (auto simp add: e1(4))
  have new_in: "\<And>s c. (s, c) \<in> set new \<Longrightarrow> s \<in> {1, 2, 3}"
  proof -
    fix s c assume "(s, c) \<in> set new"
    then have "s \<in> set (map fst new)" by force
    then have "s \<in> set [1, 2, 3]" unfolding ap(7) by (meson filter_is_subset subsetD)
    then show "s \<in> {1, 2, 3}" by simp
  qed
  have pr: "play_round G action e = (Inr (False # fs), e')"
    using pc e1(1,2) ap(1) by (simp add: play_round_def)
  have c2: "current_trick e' = Some t'" "plays t' = (0, action) # new" "leader t' = leader t"
    using ap(2-4) e1 by simp_all
  have c5: "length (hands e') = 4" using ap(5) e1(4) assms(3) by simp
  have c6: "hands e' ! 0 = remove1 action (hands e ! 0)"
    using ap(6) e1(4) assms(3) by simp
  have c7: "map fst new = filter (\<lambda>p. hands e ! p \<noteq> []) [1, 2, 3]"
    using ap(7) same_hand by simp
  have c8: "\<forall>(s, c)\<in>set new. c \<in> set (hands e ! s)
          \<and> (suit_of c = suit_of action \<or> (\<forall>c'\<in>set (hands e ! s). suit_of c' \<noteq> suit_of action))"
  proof (intro ballI)
    fix x assume x: "x \<in> set new"
    obtain s c where sc: "x = (s, c)" by (cases x)
    then have "hands e1 ! s = hands e ! s" using x new_in same_hand by blast
    moreover have "c \<in> set (hands e1 ! s)
          \<and> (suit_of c = suit_of action \<or> (\<forall>c'\<in>set (hands e1 ! s). suit_of c' \<noteq> suit_of action))"
      using ap(8) x sc by blast
    ultimately show "case x of (s, c) \<Rightarrow> c \<in> set (hands e ! s)
          \<and> (suit_of c = suit_of action \<or> (\<forall>c'\<in>set (hands e ! s). suit_of c' \<noteq> suit_of action))"
      by (simp add: sc)
  qed
  have c9: "\<forall>p\<in>{1, 2, 3}. length (hands e' ! p) = length (hands e ! p) - 1"
    using ap(9) same_hand by simp
  have c10: "True \<notin> set (False # fs)" using ap(10) by simp
  have c11: "done_flag e' = done_flag e \<and> rounds_played e' = rounds_played e
        \<and> dealt e' = dealt e \<and> tricks_won e' = tricks_won e \<and> tens_won e' = tens_won e"
    using ap(11) by (simp add: e1_def)
  have c12: "length (False # fs) = Suc (length new)" using ap(12) by simp
  show ?thesis
    using pr c2 c5 c6 c7 c8 c9 c10 c11 c12 by blast
qed

subsection \<open>Dealing\<close>

lemma shuffle_from_mset:
  "k < length x \<Longrightarrow> mset (fst (shuffle_from G k x g)) = mset x"
proof (induction k arbitrary: x g)
  case 0
  show ?case by simp
next
  case (Suc k)
  obtain r g' where r: "gen_below G g (Suc k + 1) = (r, g')"
    by (cases "gen_below G g (Suc k + 1)")
  define j where "j = r mod (Suc k + 1)"
  define x' where "x' = x[Suc k := x ! j, j := x ! Suc k]"
  have "j < Suc k + 1" by (simp add: j_def)
  then have j: "j < length x" using Suc.prems by linarith
  have "mset x' = mset x" unfolding x'_def using mset_swap [of j x "Suc k"] j Suc.prems by simp
  moreover have "k < length x'" using Suc.prems by (simp add: x'_def)
  ultimately have "mset (fst (shuffle_from G k x' g')) = mset x"
    using Suc.IH [of x' g'] by simp
  then show ?case using r by (simp add: randbelow_def j_def x'_def)
qed

lemma shuffle_mset: "mset (fst (shuffle G x g)) = mset x"
proof (cases "x = []")
  case True then show ?thesis by (simp add: shuffle_def)
next
  case False
  then have "length x - 1 < length x" by (cases x) auto
  then show ?thesis unfolding shuffle_def by (rule shuffle_from_mset)
qed

lemma upt4: "[0..<4] = [0, 1, 2, 3]"
  by (simp add: upt_conv_Cons)

lemma reset_hands:
  "hands (snd (reset G seed e)) =
     (let deck = fst (shuffle G (map int [0..<52]) (case seed of None \<Rightarrow> rng e | Some s \<Rightarrow> gen_seed G s))
      in [sort (take 13 deck), sort (take 13 (drop 13 deck)),
          sort (take 13 (drop 26 deck)), sort (take 13 (drop 39 deck))])"
  by (simp add: reset_def Let_def case_prod_unfold upt4)

lemma deck_slices:
  assumes "length deck = 52"
  shows "deck = take 13 deck @ take 13 (drop 13 deck) @ take 13 (drop 26 deck) @ take 13 (drop 39 deck)"
proof -
  have "take 13 (drop 39 deck) = drop 39 deck" using assms by simp
  moreover have "drop 26 deck = take 13 (drop 26 deck) @ drop 39 deck"
    using append_take_drop_id [of 13 "drop 26 deck"] by simp
  moreover have "drop 13 deck = take 13 (drop 13 deck) @ drop 26 deck"
    using append_take_drop_id [of 13 "drop 13 deck"] by simp
  moreover have "deck = take 13 deck @ drop 13 deck" by simp
  ultimately show ?thesis by metis
qed

lemma deal_hands:
  "length (hands (snd (reset G seed e))) = 4
   \<and> (\<forall>p<4. length (hands (snd (reset G seed e)) ! p) = 13
           \<and> sorted (hands (snd (reset G seed e)) ! p))
   \<and> (\<forall>p<4. \<forall>q<4. p \<noteq> q \<longrightarrow>
         set (hands (snd (reset G seed e)) ! p) \<inter> set (hands (snd (reset G seed e)) ! q) = {})
   \<and> (\<Union>p<4. set (hands (snd (reset G seed e)) ! p)) = {0..51}"
proof -
  define deck where "deck = fst (shuffle G (map int [0..<52])
      (case seed of None \<Rightarrow> rng e | Some s \<Rightarrow> gen_seed G s))"
  define s0 where "s0 = take 13 deck"
  define s1 where "s1 = take 13 (drop 13 deck)"
  define s2 where "s2 = take 13 (drop 26 deck)"
  define s3 where "s3 = take 13 (drop 39 deck)"
  have ms: "mset deck = mset (map int [0..<52])" unfolding deck_def by (rule shuffle_mset)
  have len: "length deck = 52" using mset_eq_length [OF ms] by simp
  have "distinct (map int [0..<52])" by (simp add: distinct_map)
  then have dist: "distinct deck" using ms by (metis mset_eq_imp_distinct_iff)
  have "set deck = set (map int [0..<52])" using ms by (rule mset_eq_setD)
  also have "\<dots> = {0..51}"
  proof -
    have "int ` {0..<52} = {0..<52}" by (simp only: image_int_atLeastLessThan) simp
    then show ?thesis by auto
  qed
  finally have setd: "set deck = {0..51}" .
  have deck: "deck = s0 @ s1 @ s2 @ s3"
    unfolding s0_def s1_def s2_def s3_def by (rule deck_slices [OF len])
  have h: "hands (snd (reset G seed e)) = [sort s0, sort s1, sort s2, sort s3]"
    by (simp add: reset_hands Let_def deck_def s0_def s1_def s2_def s3_def)
  have lens: "length s0 = 13" "length s1 = 13" "length s2 = 13" "length s3 = 13"
    using len by (simp_all add: s0_def s1_def s2_def s3_def)
  have disj: "set s0 \<inter> set s1 = {}" "set s0 \<inter> set s2 = {}" "set s0 \<inter> set s3 = {}"
    "set s1 \<inter> set s2 = {}" "set s1 \<inter> set s3 = {}" "set s2 \<inter> set s3 = {}"
    using dist unfolding deck by auto
  have un: "set s0 \<union> set s1 \<union> set s2 \<union> set s3 = {0..51}"
    using setd unfolding deck by auto
  have four: "\<And>p::nat. p < 4 \<Longrightarrow> p = 0 \<or> p = 1 \<or> p = 2 \<or> p = 3" by linarith
  have c1: "length (hands (snd (reset G seed e))) = 4" by (simp add: h)
  have c2: "\<forall>p<4. length (hands (snd (reset G seed e)) ! p) = 13
           \<and> sorted (hands (snd (reset G seed e)) ! p)"
    using lens by (auto simp add: h dest!: four)
  have c3: "\<forall>p<4. \<forall>q<4. p \<noteq> q \<longrightarrow>
         set (hands (snd (reset G seed e)) ! p) \<inter> set (hands (snd (reset G seed e)) ! q) = {}"
  proof (intro allI impI)
    fix p q :: nat assume "p < 4" "q < 4" "p \<noteq> q"
    then show "set (hands (snd (reset G seed e)) ! p) \<inter> set (hands (snd (reset G seed e)) ! q) = {}"
      using disj four [of p] four [of q] by (auto simp add: h)
  qed
  have "{..<4::nat} = {0, 1, 2, 3}" by auto
  then have c4: "(\<Union>p<4. set (hands (snd (reset G seed e)) ! p)) = {0..51}"
    using un by (simp add: h Un_assoc)
  show ?thesis using c1 c2 c3 c4 by blast
qed

text \<open>
  C4. For every seed (given or not) and every state \<open>reset\<close> is called in, the four
  hands dealt partition the 52 card identifiers: there are four hands of exactly 13 cards,
  each sorted ascending, pairwise disjoint, and their union is {0,...,51}.
\<close>

theorem deal_partition:
  "length (hands (snd (reset G seed e))) = 4
   \<and> (\<forall>p<4. length (hands (snd (reset G seed e)) ! p) = 13
           \<and> sorted (hands (snd (reset G seed e)) ! p))
   \<and> (\<forall>p<4. \<forall>q<4. p \<noteq> q \<longrightarrow>
         set (hands (snd (reset G seed e)) ! p) \<inter> set (hands (snd (reset G seed e)) ! q) = {})
   \<and> (\<Union>p<4. set (hands (snd (reset G seed e)) ! p)) = {0..51}"
  by (rule deal_hands)

theorem deal_partition_witness:
  "length (hands (snd (reset lcg (Some 7) (init lcg None 0))) ! 0) = 13
   \<and> set (hands (snd (reset lcg (Some 7) (init lcg None 0))) ! 0)
       \<inter> set (hands (snd (reset lcg (Some 7) (init lcg None 0))) ! 1) = {}"
  using deal_partition [of lcg "Some 7" "init lcg None 0"] by simp

subsection \<open>Episodes\<close>

lemma reset_in_round: "in_round 0 (snd (reset G seed e))"
proof -
  have "length (hands (snd (reset G seed e))) = 4"
    "\<forall>p<4. length (hands (snd (reset G seed e)) ! p) = 13"
    using deal_hands [of G seed e] by simp_all
  moreover have "current_trick (snd (reset G seed e)) = Some \<lparr> leader = 0, plays = [] \<rparr>"
    "\<not> done_flag (snd (reset G seed e))" "rounds_played (snd (reset G seed e)) = 0"
    "tricks_won (snd (reset G seed e)) = [0 \<mapsto> 0, 1 \<mapsto> 0]"
    "tens_won (snd (reset G seed e)) = [0 \<mapsto> 0, 1 \<mapsto> 0]"
    by (simp_all add: reset_def Let_def case_prod_unfold)
  ultimately show ?thesis by (simp add: in_round_def)
qed

lemma step_in_round:
  assumes "in_round k e" "k < 13" "action \<in> set (hands e ! 0)"
  shows "\<exists>ob r e' w a. step G action e = (Inr (ob, r, done_flag e', False), e')
    \<and> in_round (Suc k) e' \<and> w < 2 \<and> tricks_won e w = Some a
    \<and> tricks_won e' = (tricks_won e)(w \<mapsto> a + 1)
    \<and> r = (if w = 0 then 1 else - 1)
    \<and> hands e' ! 0 = remove1 action (hands e ! 0)"
proof -
  from assms(1) obtain a0 a1 b0 b1 where inv:
    "length (hands e) = 4" "\<forall>p<4. length (hands e ! p) = 13 - k"
    "current_trick e = Some \<lparr> leader = 0, plays = [] \<rparr>" "\<not> done_flag e"
    "rounds_played e = k"
    "tricks_won e 0 = Some a0" "tricks_won e 1 = Some a1" "a0 + a1 = int k"
    "tens_won e 0 = Some b0" "tens_won e 1 = Some b1"
    using assms(2) by (auto simp add: in_round_def)
  have st: "start_trick e = e" using inv(3) by (simp add: start_trick_def)
  have ne: "hands e ! 1 \<noteq> []" "hands e ! 2 \<noteq> []" "hands e ! 3 \<noteq> []"
    using inv(2) assms(2) by (auto simp add: length_0_conv [symmetric] simp del: length_0_conv)
  from play_round_spec [of e "\<lparr> leader = 0, plays = [] \<rparr>" action G] inv(1,3) assms(3)
  obtain fs e1 t1 new where pr: "play_round G action e = (Inr fs, e1)"
    "current_trick e1 = Some t1" "plays t1 = (0, action) # new"
    "length (hands e1) = 4"
    "hands e1 ! 0 = remove1 action (hands e ! 0)"
    "map fst new = filter (\<lambda>p. hands e ! p \<noteq> []) [1, 2, 3]"
    "\<forall>p\<in>{1, 2, 3}. length (hands e1 ! p) = length (hands e ! p) - 1"
    "done_flag e1 = done_flag e" "rounds_played e1 = rounds_played e"
    "tricks_won e1 = tricks_won e" "tens_won e1 = tens_won e"
    by auto
  have "map fst new = [1, 2, 3]" using pr(6) ne by simp
  then have "length new = 3" by (metis length_map length_Cons list.size(3) numeral_3_eq_3)
  then have len4: "length (plays t1) = 4" using pr(3) by simp
  have complete: "is_trick_complete e1" using pr(2) len4 by (simp add: is_trick_complete_def)
  have hne: "hands e1 \<noteq> []" using pr(4) by auto
  have sc_pre: "tricks_won e1 0 = Some a0" "tricks_won e1 1 = Some a1"
    "tens_won e1 0 = Some b0" "tens_won e1 1 = Some b1"
    using inv(6,7,9,10) pr(10,11) by simp_all
  from scored_trick [OF pr(2) len4 hne sc_pre]
  obtain i w a b where sc0:
    "w = (if fst (plays t1 ! i) = 0 \<or> fst (plays t1 ! i) = 2 then 0 else 1)"
    "tricks_won e1 w = Some a" "tens_won e1 w = Some b"
    "end_trick_and_score e1 =
        (Inr (compute_reward w),
         e1\<lparr>tricks_won := (tricks_won e1)(w \<mapsto> a + 1),
           tens_won := (tens_won e1)(w \<mapsto> b + tens_in (plays t1)),
           rounds_played := rounds_played e1 + 1,
           current_player := 0,
           current_trick := Some \<lparr> leader = 0, plays = [] \<rparr>,
           done_flag := (done_flag e1 \<or> hands e1 ! 0 = [])\<rparr>)"
    by blast
  have "w < 2" using sc0(1) by simp
  note sc = this sc0(2-4)
  define e2 where "e2 = e1\<lparr>tricks_won := (tricks_won e1)(w \<mapsto> a + 1),
           tens_won := (tens_won e1)(w \<mapsto> b + tens_in (plays t1)),
           rounds_played := rounds_played e1 + 1,
           current_player := 0,
           current_trick := Some \<lparr> leader = 0, plays = [] \<rparr>,
           done_flag := (done_flag e1 \<or> hands e1 ! 0 = [])\<rparr>"
  have es: "end_trick_and_score e1 = (Inr (compute_reward w), e2)"
    using sc(4) by (simp only: e2_def)
  have e2: "hands e2 = hands e1" "tricks_won e2 = (tricks_won e)(w \<mapsto> a + 1)"
    "tens_won e2 = (tens_won e)(w \<mapsto> b + tens_in (plays t1))"
    "rounds_played e2 = Suc k" "current_trick e2 = Some \<lparr> leader = 0, plays = [] \<rparr>"
    "done_flag e2 = (hands e1 ! 0 = [])"
    using pr(8-11) inv(4,5) by (simp_all add: e2_def)
  obtain ob where ob: "obs e2 = Inr ob" using hne e2(1) by (simp add: obs_def)
  have stp: "step G action e = (Inr (ob, compute_reward w, done_flag e2, False), e2)"
    using inv(1,4) assms(3) st pr(1) complete es ob by (auto simp add: step_def)
  have l0: "length (hands e1 ! 0) = 13 - Suc k"
    using pr(5) assms(3) inv(2) by (simp add: length_remove1)
  have lens: "\<forall>p<4. length (hands e2 ! p) = 13 - Suc k"
  proof (intro allI impI)
    fix p :: nat assume "p < 4"
    then consider "p = 0" | "p \<in> {1, 2, 3}" by auto linarith
    then show "length (hands e2 ! p) = 13 - Suc k"
    proof cases
      case 1 then show ?thesis using l0 e2(1) by simp
    next
      case 2
      then have "length (hands e1 ! p) = length (hands e ! p) - 1" using pr(7) by blast
      moreover have "length (hands e ! p) = 13 - k" using inv(2) \<open>p < 4\<close> by blast
      ultimately show ?thesis using e2(1) by simp
    qed
  qed
  have dn: "done_flag e2 \<longleftrightarrow> Suc k = 13"
    using l0 assms(2) e2(6) by (auto simp add: length_0_conv [symmetric] simp del: length_0_conv)
  have w01: "w = 0 \<or> w = 1" using sc(1) by auto
  have aw: "tricks_won e w = Some a" using sc(2) pr(10) by simp
  have tr: "\<exists>x y. tricks_won e2 0 = Some x \<and> tricks_won e2 1 = Some y \<and> x + y = int (Suc k)"
    using w01 aw inv(6-8) by (auto simp add: e2(2))
  have bw: "tens_won e w = Some b" using sc(3) pr(11) by simp
  have tn: "\<exists>x y. tens_won e2 0 = Some x \<and> tens_won e2 1 = Some y"
    using w01 bw inv(9,10) by (auto simp add: e2(3))
  have "in_round (Suc k) e2"
    unfolding in_round_def using assms(2) pr(4) e2(1,4,5) lens dn tr tn by simp
  moreover have "compute_reward w = (if w = 0 then 1 else - 1)" by (simp add: compute_reward_def)
  ultimately show ?thesis
    using stp sc(1) aw e2(2) pr(5) e2(1) by (metis (no_types, lifting))
qed

lemma step_unstarted:
  assumes "unstarted e"
  shows "step G action e = (Inl InvalidAction, e)"
  using assms by (simp add: unstarted_def step_def)

lemma step_done:
  assumes "in_round 13 e"
  shows "step G action e = (Inl EpisodeFinished, e)"
  using assms by (simp add: in_round_def step_def)

lemma step_invalid:
  assumes "in_round k e" "k < 13" "action \<notin> set (hands e ! 0)"
  shows "step G action e = (Inl InvalidAction, e)"
proof -
  have "hands e \<noteq> []" "\<not> done_flag e" using assms(1,2) by (auto simp add: in_round_def)
  then show ?thesis using assms(3) by (simp add: step_def)
qed

lemma step_cases:
  assumes "in_round k e"
  shows "(\<exists>err. step G action e = (Inl err, e))
       \<or> (k < 13 \<and> (\<exists>res. step G action e = (Inr res, snd (step G action e)))
             \<and> in_round (Suc k) (snd (step G action e)))"
proof -
  have k: "k \<le> 13" using assms by (simp add: in_round_def)
  show ?thesis
  proof (cases "k = 13")
    case True
    then show ?thesis using step_done [of e G action] assms by blast
  next
    case False
    then have lt: "k < 13" using k by simp
    show ?thesis
    proof (cases "action \<in> set (hands e ! 0)")
      case True
      from step_in_round [OF assms lt True, of G] show ?thesis using lt by force
    next
      case False
      then show ?thesis using step_invalid [OF assms lt False, of G] by blast
    qed
  qed
qed

lemma reachable_inv:
  assumes "reachable G e"
  shows "unstarted e \<or> (\<exists>k. in_round k e)"
  using assms
proof (induction rule: reachable.induct)
  case (created seed g0)
  show ?case by (simp add: unstarted_def init_def)
next
  case (after_reset e seed)
  show ?case using reset_in_round by blast
next
  case (after_step e action)
  from after_step.IH show ?case
  proof
    assume "unstarted e"
    then show ?thesis using step_unstarted [of e G action] by simp
  next
    assume "\<exists>k. in_round k e"
    then obtain k where k: "in_round k e" by blast
    from step_cases [OF k, of G action] show ?thesis
    proof
      assume "\<exists>err. step G action e = (Inl err, e)"
      then show ?thesis using k by auto
    next
      assume "k < 13 \<and> (\<exists>res. step G action e = (Inr res, snd (step G action e)))
             \<and> in_round (Suc k) (snd (step G action e))"
      then show ?thesis by blast
    qed
  qed
qed

lemma run_steps_in_round:
  assumes "in_round k e" "run_steps G acts e = Inr e'"
  shows "in_round (k + length acts) e'"
  using assms
proof (induction acts arbitrary: k e)
  case Nil
  then show ?case by simp
next
  case (Cons a acts)
  from step_cases [OF Cons.prems(1), of G a] show ?case
  proof
    assume "\<exists>err. step G a e = (Inl err, e)"
    then show ?thesis using Cons.prems(2) by auto
  next
    assume *: "k < 13 \<and> (\<exists>res. step G a e = (Inr res, snd (step G a e)))
             \<and> in_round (Suc k) (snd (step G a e))"
    then obtain res where res: "step G a e = (Inr res, snd (step G a e))" by blast
    then have "run_steps G acts (snd (step G a e)) = Inr e'"
      using Cons.prems(2) by (metis (no_types, lifting) run_steps.simps(2) old.prod.case sum.case(2))
    from Cons.IH [OF _ this, of "Suc k"] * show ?thesis by simp
  qed
qed

lemma run_steps_snoc:
  "run_steps G (acts @ [a]) e =
     (case run_steps G acts e of Inl err \<Rightarrow> Inl err | Inr e' \<Rightarrow> run_steps G [a] e')"
proof (induction acts arbitrary: e)
  case Nil
  show ?case by simp
next
  case (Cons b acts)
  obtain r e1 where s: "step G b e = (r, e1)" by (cases "step G b e")
  show ?case using Cons.IH [of e1] s by (cases r) simp_all
qed

text \<open>
  C5. Take any sequence of calls of \<open>step\<close> that all succeed, starting from a freshly
  reset episode. There are at most 13 of them; \<open>done\<close> is true after them exactly when
  there were 13, and exactly when seat 0's hand is empty. Once \<open>done\<close> is true every
  call of \<open>step\<close> fails with \<open>EpisodeFinished\<close> and leaves the state as it is, so
  this goes on until \<open>reset\<close> is called, after which \<open>done\<close> is false again. While
  \<open>done\<close> is false seat 0 holds a card, and playing any card it holds succeeds, so the
  thirteenth trick is always reached.
\<close>

theorem episode_termination:
  assumes "run_steps G acts (snd (reset G seed e0)) = Inr e"
  shows "length acts \<le> 13
    \<and> (done_flag e \<longleftrightarrow> length acts = 13)
    \<and> (done_flag e \<longleftrightarrow> hands e ! 0 = [])
    \<and> (done_flag e \<longrightarrow> (\<forall>a. step G a e = (Inl EpisodeFinished, e)))
    \<and> (\<not> done_flag e \<longrightarrow> hands e ! 0 \<noteq> []
          \<and> (\<forall>a\<in>set (hands e ! 0). \<exists>res e'. step G a e = (Inr res, e')
                \<and> run_steps G (acts @ [a]) (snd (reset G seed e0)) = Inr e'))
    \<and> \<not> done_flag (snd (reset G seed' e))"
proof -
  define k where "k = length acts"
  have inv: "in_round k e"
    using run_steps_in_round [OF reset_in_round assms] by (simp add: k_def)
  then have k: "k \<le> 13" "done_flag e \<longleftrightarrow> k = 13" "length (hands e ! 0) = 13 - k"
    by (auto simp add: in_round_def)
  have c3: "done_flag e \<longleftrightarrow> hands e ! 0 = []"
    using k by (auto simp add: length_0_conv [symmetric] simp del: length_0_conv)
  have c4: "done_flag e \<longrightarrow> (\<forall>a. step G a e = (Inl EpisodeFinished, e))"
    by (simp add: step_def)
  have c5: "\<not> done_flag e \<longrightarrow> hands e ! 0 \<noteq> []
          \<and> (\<forall>a\<in>set (hands e ! 0). \<exists>res e'. step G a e = (Inr res, e')
                \<and> run_steps G (acts @ [a]) (snd (reset G seed e0)) = Inr e')"
  proof (intro impI conjI ballI)
    assume nd: "\<not> done_flag e"
    then show "hands e ! 0 \<noteq> []" using c3 by simp
    fix a assume a: "a \<in> set (hands e ! 0)"
    have "k < 13" using k nd by simp
    from step_in_round [OF inv this a, of G]
    obtain res e' where st: "step G a e = (Inr res, e')" by blast
    then have "run_steps G (acts @ [a]) (snd (reset G seed e0)) = Inr e'"
      using assms by (simp add: run_steps_snoc)
    with st show "\<exists>res e'. step G a e = (Inr res, e')
                \<and> run_steps G (acts @ [a]) (snd (reset G seed e0)) = Inr e'" by blast
  qed
  have c6: "\<not> done_flag (snd (reset G seed' e))"
    using reset_in_round [of G seed' e] by (simp add: in_round_def)
  show ?thesis using k(1,2) c3 c4 c5 c6 unfolding k_def by blast
qed

text \<open>
  C8. With the default \<open>compute_reward\<close>, after any sequence of successful calls of
  \<open>step\<close> from a freshly reset episode, \<open>tricks_won[0] + tricks_won[1]\<close> is the
  number of tricks resolved so far, which is also \<open>_rounds_played\<close>; the same relation
  holds after one more call of \<open>step\<close>, successful or not. Every successful call
  resolves one trick: the winning team \<open>w\<close> has its \<open>tricks_won\<close> incremented, and
  the reward is exactly \<open>+1.0\<close> if \<open>w\<close> is team 0 and exactly \<open>-1.0\<close> otherwise.
\<close>

theorem reward_and_trick_count:
  assumes "run_steps G acts (snd (reset G seed e0)) = Inr e"
  shows "(\<exists>a b. tricks_won e 0 = Some a \<and> tricks_won e 1 = Some b
            \<and> a + b = int (length acts))
    \<and> rounds_played e = length acts
    \<and> (\<forall>action. \<exists>a b. tricks_won (snd (step G action e)) 0 = Some a
            \<and> tricks_won (snd (step G action e)) 1 = Some b
            \<and> a + b = int (rounds_played (snd (step G action e))))
    \<and> (\<forall>action ob r tm tr e'. step G action e = (Inr (ob, r, tm, tr), e') \<longrightarrow>
          (\<exists>w a. w < 2 \<and> tricks_won e w = Some a
             \<and> tricks_won e' = (tricks_won e)(w \<mapsto> a + 1)
             \<and> rounds_played e' = rounds_played e + 1
             \<and> r = (if w = 0 then 1 else - 1)))"
proof -
  define k where "k = length acts"
  have inv: "in_round k e"
    using run_steps_in_round [OF reset_in_round assms] by (simp add: k_def)
  have sum_of: "\<And>j x. in_round j x \<Longrightarrow> \<exists>a b. tricks_won x 0 = Some a \<and> tricks_won x 1 = Some b
            \<and> a + b = int (rounds_played x)"
    by (auto simp add: in_round_def)
  have c1: "\<exists>a b. tricks_won e 0 = Some a \<and> tricks_won e 1 = Some b \<and> a + b = int k"
    "rounds_played e = k"
    using inv by (auto simp add: in_round_def)
  have c3: "\<forall>action. \<exists>a b. tricks_won (snd (step G action e)) 0 = Some a
            \<and> tricks_won (snd (step G action e)) 1 = Some b
            \<and> a + b = int (rounds_played (snd (step G action e)))"
  proof
    fix action
    from step_cases [OF inv, of G action]
    have "\<exists>j. in_round j (snd (step G action e))"
    proof
      assume "\<exists>err. step G action e = (Inl err, e)"
      then show ?thesis using inv by auto
    next
      assume "k < 13 \<and> (\<exists>res. step G action e = (Inr res, snd (step G action e)))
             \<and> in_round (Suc k) (snd (step G action e))"
      then show ?thesis by blast
    qed
    then show "\<exists>a b. tricks_won (snd (step G action e)) 0 = Some a
            \<and> tricks_won (snd (step G action e)) 1 = Some b
            \<and> a + b = int (rounds_played (snd (step G action e)))"
      using sum_of by blast
  qed
  have c4: "\<forall>action ob r tm tr e'. step G action e = (Inr (ob, r, tm, tr), e') \<longrightarrow>
          (\<exists>w a. w < 2 \<and> tricks_won e w = Some a
             \<and> tricks_won e' = (tricks_won e)(w \<mapsto> a + 1)
             \<and> rounds_played e' = rounds_played e + 1
             \<and> r = (if w = 0 then 1 else - 1))"
  proof (intro allI impI)
    fix action ob r tm tr e'
    assume st: "step G action e = (Inr (ob, r, tm, tr), e')"
    have nd: "\<not> done_flag e" "action \<in> set (hands e ! 0)"
      using st by (auto simp add: step_def split: if_splits)
    then have "k < 13" using inv by (auto simp add: in_round_def)
    from step_in_round [OF inv this nd(2), of G] st
    obtain w a where "in_round (Suc k) e'" "w < 2" "tricks_won e w = Some a"
      "tricks_won e' = (tricks_won e)(w \<mapsto> a + 1)" "r = (if w = 0 then 1 else - 1)"
      by auto
    moreover have "rounds_played e' = rounds_played e + 1"
      using calculation(1) c1(2) by (simp add: in_round_def)
    ultimately show "\<exists>w a. w < 2 \<and> tricks_won e w = Some a
             \<and> tricks_won e' = (tricks_won e)(w \<mapsto> a + 1)
             \<and> rounds_played e' = rounds_played e + 1
             \<and> r = (if w = 0 then 1 else - 1)" by blast
  qed
  show ?thesis using c1 c3 c4 unfolding k_def by blast
qed



subsection \<open>Whole episodes\<close>

lemma length_first_card_actions [simp]: "length (first_card_actions G n e) = n"
  by (induction n arbitrary: e) (simp_all add: Let_def)

lemma first_card_run:
  assumes "in_round k e" "k + n \<le> 13"
  shows "\<exists>e'. run_steps G (first_card_actions G n e) e = Inr e'"
  using assms
proof (induction n arbitrary: k e)
  case 0
  show ?case by simp
next
  case (Suc n)
  have k: "k < 13" using Suc.prems(2) by simp
  have "length (hands e ! 0) = 13 - k" using Suc.prems(1) by (simp add: in_round_def)
  then have "hands e ! 0 \<noteq> []" using k by auto
  then have a: "hd (hands e ! 0) \<in> set (hands e ! 0)" by simp
  from step_in_round [OF Suc.prems(1) k a, of G]
  obtain res e1 where st: "step G (hd (hands e ! 0)) e = (Inr res, e1)" "in_round (Suc k) e1"
    by blast
  from Suc.IH [OF st(2)] Suc.prems(2)
  obtain e' where "run_steps G (first_card_actions G n e1) e1 = Inr e'" by auto
  then show ?case using st(1) by (simp add: Let_def)
qed

theorem step_failure_unchanged_witness:
  "step lcg 5 (init lcg None 0) = (Inl InvalidAction, init lcg None 0)
   \<and> (\<exists>e. run_steps lcg (first_card_actions lcg 13 dealt_example) dealt_example = Inr e
          \<and> done_flag e \<and> step lcg 5 e = (Inl EpisodeFinished, e))"
proof -
  have inv: "in_round 0 dealt_example" unfolding dealt_example_def by (rule reset_in_round)
  from first_card_run [OF inv, of 13 lcg]
  obtain e where e: "run_steps lcg (first_card_actions lcg 13 dealt_example) dealt_example = Inr e"
    by auto
  have "in_round 13 e" using run_steps_in_round [OF inv e] by simp
  then have d: "done_flag e" by (simp add: in_round_def)
  have "step lcg 5 e = (Inl EpisodeFinished, e)"
    using step_failure_unchanged [of e lcg 5] d by simp
  moreover have "step lcg 5 (init lcg None 0) = (Inl InvalidAction, init lcg None 0)"
    using step_failure_unchanged [of "init lcg None 0" lcg 5] by (simp add: init_def)
  ultimately show ?thesis using e d by blast
qed

theorem episode_termination_witness:
  "\<exists>e. run_steps lcg (first_card_actions lcg 13 dealt_example) dealt_example = Inr e
     \<and> done_flag e \<and> hands e ! 0 = [] \<and> step lcg 0 e = (Inl EpisodeFinished, e)"
proof -
  have "in_round 0 dealt_example" unfolding dealt_example_def by (rule reset_in_round)
  from first_card_run [OF this, of 13 lcg]
  obtain e where e: "run_steps lcg (first_card_actions lcg 13 dealt_example) dealt_example = Inr e"
    by auto
  from episode_termination [OF e [unfolded dealt_example_def], where seed' = None]
  have "done_flag e" "hands e ! 0 = []" "step lcg 0 e = (Inl EpisodeFinished, e)"
    by simp_all blast+
  with e show ?thesis by blast
qed

theorem reward_and_trick_count_witness:
  "\<exists>e a b. run_steps lcg (first_card_actions lcg 13 dealt_example) dealt_example = Inr e
     \<and> tricks_won e 0 = Some a \<and> tricks_won e 1 = Some b \<and> a + b = 13
     \<and> rounds_played e = 13"
proof -
  have "in_round 0 dealt_example" unfolding dealt_example_def by (rule reset_in_round)
  from first_card_run [OF this, of 13 lcg]
  obtain e where e: "run_steps lcg (first_card_actions lcg 13 dealt_example) dealt_example = Inr e"
    by auto
  from reward_and_trick_count [OF e [unfolded dealt_example_def]] e show ?thesis by auto
qed


text \<open>
  C10. In every execution of \<open>step\<close> from a reachable state that gets past the two
  checks, the revert-and-replace branch of \<open>_play_card\<close> never runs: the four calls
  of \<open>_play_card\<close> all succeed and each reports that it kept the card it was given, so
  no appended play is popped and no card goes back to a hand.
\<close>

theorem override_never_runs:
  assumes "reachable G e" "\<not> done_flag e" "action \<in> set (hands e ! 0)"
  shows "\<exists>e'. play_round G action (start_trick e) = (Inr [False, False, False, False], e')"
proof -
  from reachable_inv [OF assms(1)] assms(3)
  obtain k where k: "in_round k e" by (auto simp add: unstarted_def)
  then have inv: "length (hands e) = 4" "current_trick e = Some \<lparr> leader = 0, plays = [] \<rparr>"
    "\<forall>p<4. length (hands e ! p) = 13 - k" "k < 13"
    using assms(2) by (auto simp add: in_round_def)
  have st: "start_trick e = e" using inv(2) by (simp add: start_trick_def)
  have ne: "hands e ! 1 \<noteq> []" "hands e ! 2 \<noteq> []" "hands e ! 3 \<noteq> []"
    using inv(3,4) by (auto simp add: length_0_conv [symmetric] simp del: length_0_conv)
  have pl: "plays \<lparr> leader = 0, plays = [] \<rparr> = []" by simp
  from play_round_spec [OF inv(2) pl inv(1) assms(3), of G]
  obtain fs e' and new :: "(nat \<times> int) list"
    where pr: "play_round G action e = (Inr fs, e')"
    "map fst new = filter (\<lambda>p. hands e ! p \<noteq> []) [1, 2, 3]"
    "True \<notin> set fs" "length fs = Suc (length new)"
    by blast
  have "map fst new = [1, 2, 3]" using pr(2) ne by simp
  then have "length new = 3" by (metis length_map length_Cons list.size(3) numeral_3_eq_3)
  then have len: "length fs = 4" using pr(4) by simp
  have all: "\<forall>i<4. fs ! i = False" using pr(3) len by (metis nth_mem)
  have "fs = [False, False, False, False]"
  proof (rule nth_equalityI)
    show "length fs = length [False, False, False, False]" using len by simp
    fix i assume "i < length fs"
    then have i: "i < 4" using len by simp
    then have "i = 0 \<or> i = 1 \<or> i = 2 \<or> i = 3" by linarith
    then show "fs ! i = [False, False, False, False] ! i" using all i by auto
  qed
  then show ?thesis using pr(1) st by simp
qed

theorem override_never_runs_witness:
  "\<exists>e'. play_round lcg (hd (hands dealt_example ! 0)) (start_trick dealt_example)
     = (Inr [False, False, False, False], e')"
proof -
  have r: "reachable lcg dealt_example"
    unfolding dealt_example_def by (intro reachable.after_reset reachable.created)
  have "in_round 0 dealt_example" unfolding dealt_example_def by (rule reset_in_round)
  then have "\<not> done_flag dealt_example" "length (hands dealt_example ! 0) = 13"
    by (simp_all add: in_round_def)
  then have "\<not> done_flag dealt_example" "hd (hands dealt_example ! 0) \<in> set (hands dealt_example ! 0)"
    by (simp_all add: length_greater_0_conv [symmetric] del: length_greater_0_conv)
  from override_never_runs [OF r this] show ?thesis .
qed


end
